theory Spec2Isabelle
  imports Complex_Main "HOL-Library.Word" "HOL-Library.Multiset"
begin

section \<open>Data model\<close>

text \<open>
  Python floats are modelled by the reals, except for the one place where the code
  tests for a NaN: the \<open>occurrence_rate\<close> of a context, which is NaN for a
  non-parametric rupture. A numpy array is a list of reals (flattened where the
  source has more than one axis and only works elementwise).
\<close>

datatype pyfloat = NaN | Val real

datatype error = ValueError | FarAwayRupture | AttributeError | IndexError | ZeroDivisionError

fun isnan :: "pyfloat \<Rightarrow> bool" where
  "isnan NaN = True"
| "isnan (Val _) = False"

text \<open>Float addition, with the NaN absorbing as in IEEE arithmetic.\<close>

fun fadd :: "pyfloat \<Rightarrow> pyfloat \<Rightarrow> pyfloat" where
  "fadd (Val a) (Val b) = Val (a + b)"
| "fadd _ _ = NaN"

text \<open>
  A \<open>RuptureContext\<close>: the attributes the code under study reads. The rupture
  parameters (\<open>mag\<close>, \<open>rake\<close>, ...) are scalars looked up by name, the distances
  (\<open>rrup\<close>, \<open>rjb\<close>, ...) are per-site arrays looked up by name.
\<close>

record RuptureContext =
  rup_id :: nat
  occurrence_rate :: pyfloat
  probs_occur :: "real list"
  sids :: "nat list"
  weight :: real
  rup_params :: "(string \<times> real) list"
  dists :: "(string \<times> real list) list"

section \<open>Minimum-distance roundup\<close>

definition KNOWN_DISTANCES :: "string list" where
  "KNOWN_DISTANCES = [''rrup'', ''rx'', ''ry0'', ''rjb'', ''rhypo'', ''repi'', ''rcdpp'',
     ''azimuth'', ''azimuth_cp'', ''rvolc'', ''closest_point'']"

text \<open>
  The body shared by both \<open>roundup\<close> methods: \<open>small_distances = array < minimum_distance\<close>;
  if any entry is small the array is copied and the small entries are overwritten,
  otherwise the very same array is kept.
\<close>

definition roundup_array :: "real \<Rightarrow> real list \<Rightarrow> real list" where
  "roundup_array minimum_distance array =
     (let small_distances = map (\<lambda>x. x < minimum_distance) array
      in if list_ex id small_distances
         then map2 (\<lambda>x small. if small then minimum_distance else x) array small_distances
         else array)"

text \<open>
  \<open>DistancesContext.roundup\<close>: the context is its \<open>vars\<close>, a dictionary from the
  name of a distance to its array, kept as an association list in insertion order.
\<close>

type_synonym DistancesContext = "(string \<times> real list) list"

definition dctx_roundup :: "real \<Rightarrow> DistancesContext \<Rightarrow> DistancesContext" where
  "dctx_roundup minimum_distance self =
     (if minimum_distance = 0 then self
      else map (\<lambda>(dist, array). (dist, roundup_array minimum_distance array)) self)"

text \<open>
  \<open>RuptureContext.roundup\<close>: a shallow copy in which only the attributes named in
  \<open>KNOWN_DISTANCES\<close> are rounded up.
\<close>

definition rctx_roundup :: "real \<Rightarrow> RuptureContext \<Rightarrow> RuptureContext" where
  "rctx_roundup minimum_distance self =
     (if minimum_distance = 0 then self
      else self\<lparr>dists :=
             map (\<lambda>(dist, array).
                    if dist \<in> set KNOWN_DISTANCES
                    then (dist, roundup_array minimum_distance array)
                    else (dist, array)) (dists self)\<rparr>)"

section \<open>Probability of no exceedance\<close>

definition clip :: "real \<Rightarrow> real \<Rightarrow> real \<Rightarrow> real" where
  "clip x lo hi = min (max x lo) hi"

text \<open>
  The non-parametric sum \<open>\<Sum> p(k|T) * p(X<x|rup)^k\<close> at one entry \<open>poe\<close> of the
  array \<open>poes\<close>: the list comprehension over \<open>enumerate(self.probs_occur)\<close>, summed.
\<close>

definition prob_no_exceed :: "real list \<Rightarrow> real \<Rightarrow> real" where
  "prob_no_exceed probs poe =
     sum_list (map (\<lambda>(i, v). v * (1 - poe) ^ i) (enumerate 0 probs))"

text \<open>
  The temporal occurrence model is a class attribute holding an object of
  \<open>openquake.hazardlib.tom\<close>, which is outside the files under study; it is taken as a
  parameter \<open>tom\<close>, the function \<open>tom.get_probability_no_exceedance\<close> of an
  occurrence rate and one conditional probability of exceedance.
\<close>

definition pne1 :: "(real \<Rightarrow> real \<Rightarrow> real) \<Rightarrow> RuptureContext \<Rightarrow> real \<Rightarrow> real" where
  "pne1 tom self poe =
     (case occurrence_rate self of
        NaN \<Rightarrow> clip (prob_no_exceed (probs_occur self) poe) 0 1
      | Val rate \<Rightarrow> tom rate poe)"

definition get_probability_no_exceedance ::
  "(real \<Rightarrow> real \<Rightarrow> real) \<Rightarrow> RuptureContext \<Rightarrow> real list \<Rightarrow> real list" where
  "get_probability_no_exceedance tom self poes = map (pne1 tom self) poes"

section \<open>Collapsing contexts\<close>

text \<open>\<open>numpy.zeros(n)\<close> raises \<open>ValueError\<close> for a negative dimension.\<close>

definition zeros :: "int \<Rightarrow> error + real list" where
  "zeros n = (if n < 0 then Inl ValueError else Inr (replicate (nat n) 0))"

text \<open>
  \<open>combine_pmf\<close>: the two nested loops \<open>for i in range(n1): for j in range(n2):
  o[i + j] += o1[i] * o2[j]\<close> over the array \<open>numpy.zeros(n1 + n2 - 1)\<close>.
\<close>

definition combine_pmf :: "real list \<Rightarrow> real list \<Rightarrow> error + real list" where
  "combine_pmf o1 o2 =
     (let n1 = length o1; n2 = length o2
      in case zeros (int n1 + int n2 - 1) of
           Inl e \<Rightarrow> Inl e
         | Inr out \<Rightarrow>
             Inr (fold (\<lambda>i. fold (\<lambda>j acc. acc[i + j := acc ! (i + j) + o1 ! i * o2 ! j])
                              [0..<n2])
                       [0..<n1] out))"

text \<open>\<open>functools.reduce(combine_pmf, ...)\<close> with the first element as the start value.\<close>

fun reduce_combine_pmf :: "real list \<Rightarrow> real list list \<Rightarrow> error + real list" where
  "reduce_combine_pmf acc [] = Inr acc"
| "reduce_combine_pmf acc (p # ps) =
     (case combine_pmf acc p of
        Inl e \<Rightarrow> Inl e
      | Inr acc' \<Rightarrow> reduce_combine_pmf acc' ps)"

text \<open>
  \<open>_collapse\<close> (an Isabelle name cannot start with an underscore). \<open>sum(...)\<close> starts
  from 0 and adds the rates from the left.
\<close>

definition collapse :: "RuptureContext list \<Rightarrow> error + RuptureContext list" where
  "collapse ctxs =
     (if length ctxs < 2 then Inr ctxs
      else
        let nrups = filter (\<lambda>ctx. isnan (occurrence_rate ctx)) ctxs;
            prups = filter (\<lambda>ctx. \<not> isnan (occurrence_rate ctx)) ctxs;
            out = (if length prups > 1
                   then [(hd prups)\<lparr>occurrence_rate :=
                           foldl fadd (Val 0) (map occurrence_rate prups)\<rparr>]
                   else prups)
        in if length nrups > 1
           then (case reduce_combine_pmf (probs_occur (hd nrups)) (map probs_occur (tl nrups)) of
                   Inl e \<Rightarrow> Inl e
                 | Inr pmf \<Rightarrow> Inr (out @ [(hd nrups)\<lparr>probs_occur := pmf\<rparr>]))
           else Inr (out @ nrups))"

text \<open>
  The part of a \<open>ContextMaker\<close> that filtering and collapsing read.
  \<open>maximum_distance\<close> is the callable \<open>MagDepDistance\<close> (tectonic region type and
  magnitude to kilometres), defined outside the files under study and taken as given.
  The requirement sets are Python sets; their iteration order is fixed within a run and
  is the order of the lists here.
\<close>

record ContextMaker =
  trt :: string
  maximum_distance :: "string \<Rightarrow> real \<Rightarrow> real"
  collapse_level :: int
  REQUIRES_RUPTURE_PARAMETERS :: "string list"
  REQUIRES_DISTANCES :: "string list"

text \<open>\<open>numpy.round(x, decimals)\<close>: to the nearest multiple, halves to the even neighbour.\<close>

definition round_half_even :: "real \<Rightarrow> int" where
  "round_half_even y =
     (let f = \<lfloor>y\<rfloor>
      in if y - of_int f < 1 / 2 then f
         else if y - of_int f > 1 / 2 then f + 1
         else if even f then f else f + 1)"

definition np_round :: "real \<Rightarrow> nat \<Rightarrow> real" where
  "np_round x decimals = of_int (round_half_even (x * 10 ^ decimals)) / 10 ^ decimals"

fun getattrs :: "(string \<times> 'v) list \<Rightarrow> string list \<Rightarrow> error + 'v list" where
  "getattrs vars [] = Inr []"
| "getattrs vars (par # pars) =
     (case map_of vars par of
        None \<Rightarrow> Inl AttributeError
      | Some v \<Rightarrow>
          (case getattrs vars pars of
             Inl e \<Rightarrow> Inl e
           | Inr vs \<Rightarrow> Inr (v # vs)))"

text \<open>The grouping key \<open>params(ctx)\<close> local to \<open>collapse_the_ctxs\<close>.\<close>

definition params :: "ContextMaker \<Rightarrow> RuptureContext \<Rightarrow> error + real list" where
  "params cm ctx =
     (let (rrp, rnd) = (if collapse_level cm \<ge> 3 then ([''mag''], 0)
                        else (REQUIRES_RUPTURE_PARAMETERS cm, 1))
      in case getattrs (rup_params ctx) rrp of
           Inl e \<Rightarrow> Inl e
         | Inr lst \<Rightarrow>
             (case getattrs (dists ctx) (REQUIRES_DISTANCES cm) of
                Inl e \<Rightarrow> Inl e
              | Inr arrays \<Rightarrow> Inr (lst @ concat (map (map (\<lambda>x. np_round x rnd)) arrays))))"

text \<open>
  Modelled from the spec: \<open>groupby\<close> of \<open>openquake.baselib.general\<close> is not among the
  files under study. The spec only says that contexts are grouped by a key and merged
  within a group, so the groups are the classes of equal key, each in list order, and
  the classes are listed by first occurrence. The key is computed once per object,
  and the first failure is raised.
\<close>

fun keyed :: "('a \<Rightarrow> error + 'k) \<Rightarrow> 'a list \<Rightarrow> error + ('k \<times> 'a) list" where
  "keyed key [] = Inr []"
| "keyed key (x # xs) =
     (case key x of
        Inl e \<Rightarrow> Inl e
      | Inr k \<Rightarrow>
          (case keyed key xs of
             Inl e \<Rightarrow> Inl e
           | Inr kxs \<Rightarrow> Inr ((k, x) # kxs)))"

function groups :: "('k \<times> 'a) list \<Rightarrow> ('k \<times> 'a list) list" where
  "groups [] = []"
| "groups ((k, x) # kxs) =
     (k, x # map snd (filter (\<lambda>p. fst p = k) kxs)) # groups (filter (\<lambda>p. fst p \<noteq> k) kxs)"
  by pat_completeness auto
termination
  by (relation "measure length") (auto simp: less_Suc_eq_le)

definition groupby :: "'a list \<Rightarrow> ('a \<Rightarrow> error + 'k) \<Rightarrow> error + ('k \<times> 'a list) list" where
  "groupby objects key =
     (case keyed key objects of
        Inl e \<Rightarrow> Inl e
      | Inr kxs \<Rightarrow> Inr (groups kxs))"

text \<open>The loop \<open>for values in ...: out.extend(_collapse(values))\<close>.\<close>

fun collapse_groups :: "RuptureContext list list \<Rightarrow> error + RuptureContext list" where
  "collapse_groups [] = Inr []"
| "collapse_groups (vals # rest) =
     (case collapse vals of
        Inl e \<Rightarrow> Inl e
      | Inr cs \<Rightarrow>
          (case collapse_groups rest of
             Inl e \<Rightarrow> Inl e
           | Inr out \<Rightarrow> Inr (cs @ out)))"

definition collapse_the_ctxs ::
  "ContextMaker \<Rightarrow> RuptureContext list \<Rightarrow> error + RuptureContext list" where
  "collapse_the_ctxs cm ctxs =
     (if length ctxs = 1 then Inr ctxs
      else case groupby ctxs (params cm) of
             Inl e \<Rightarrow> Inl e
           | Inr grps \<Rightarrow> collapse_groups (map snd grps))"

text \<open>
  The composition of the test module (\<open>compose\<close> in \<open>contexts_test.py\<close>) under the
  independent-ruptures rule: the product of the no-exceedance probabilities of the
  contexts, each at the conditional probability of exceedance \<open>poe ctx\<close> that the
  ground-motion models give for it.
\<close>

definition compose_pne ::
  "(real \<Rightarrow> real \<Rightarrow> real) \<Rightarrow> (RuptureContext \<Rightarrow> real) \<Rightarrow> RuptureContext list \<Rightarrow> real" where
  "compose_pne tom poe ctxs = prod_list (map (\<lambda>ctx. pne1 tom ctx (poe ctx)) ctxs)"

definition is_pmf :: "real list \<Rightarrow> bool" where
  "is_pmf probs \<longleftrightarrow> probs \<noteq> [] \<and> list_all (\<lambda>p. 0 \<le> p) probs \<and> sum_list probs = 1"

section \<open>Weighted blocks\<close>

text \<open>
  Modelled from the spec: \<open>block_splitter\<close> of \<open>openquake.baselib.general\<close> is not
  among the files under study. The spec (section 4.4): "Greedy accumulation: append
  items to the current block until adding the next would exceed max_weight, then start a
  new block." A block is a non-empty run of items: the block under construction is
  emitted when the next item would take it over \<open>max_weight\<close> and once more at the end,
  unless it is still empty.
\<close>

fun block_splitter_from :: "real \<Rightarrow> ('a \<Rightarrow> real) \<Rightarrow> 'a list \<Rightarrow> 'a list \<Rightarrow> 'a list list" where
  "block_splitter_from max_weight weight_fn block [] = (if block = [] then [] else [block])"
| "block_splitter_from max_weight weight_fn block (item # items) =
     (if sum_list (map weight_fn block) + weight_fn item > max_weight
      then (if block = [] then [] else [block])
             @ block_splitter_from max_weight weight_fn [item] items
      else block_splitter_from max_weight weight_fn (block @ [item]) items)"

definition block_splitter :: "'a list \<Rightarrow> real \<Rightarrow> ('a \<Rightarrow> real) \<Rightarrow> 'a list list" where
  "block_splitter items max_weight weight_fn = block_splitter_from max_weight weight_fn [] items"

section \<open>Composing probabilities into a map\<close>











section \<open>Splitting the sources of a classical task\<close>

text \<open>
  A source, as far as the task function reads it: its identifier and its \<open>weight\<close>
  (field \<open>src_weight\<close>; \<open>get_weight\<close> is \<open>operator.attrgetter('weight')\<close>). The weight
  of a block, \<open>block.weight\<close>, is the sum of the weights of its items.
\<close>

record Source =
  source_id :: string
  src_weight :: real

definition get_weight :: "Source \<Rightarrow> real" where
  "get_weight src = src_weight src"

definition block_weight :: "Source list \<Rightarrow> real" where
  "block_weight block = sum_list (map get_weight block)"

record Params =
  min_weight :: real
  max_weight :: real
  split_sources :: bool

text \<open>
  What the generator \<open>classical_split_filter\<close> yields: the empty result, a subtask
  \<open>(classical, block, rlzs_by_gsim, params)\<close> to be submitted for a block, or the
  result of calling \<open>classical\<close> on the light sources in the same task. The hazard
  computation itself is outside the files under study; a yielded item is identified by
  the sources it is about.
\<close>

datatype yielded = Empty_result | Subtask "Source list" | Result "Source list"

text \<open>
  The first part of the function: the weight limit of a block and the list of sources
  to partition. \<open>srcfilter.split\<close> (outside the files under study) is the parameter
  \<open>split\<close>: it yields the pieces of the heavy sources that are close to some site.
\<close>

definition maxw_sources :: "Params \<Rightarrow> (Source list \<Rightarrow> Source list) \<Rightarrow> Source list
    \<Rightarrow> real \<times> Source list" where
  "maxw_sources param split srcs =
     (let minw = min_weight param
      in if split_sources param
         then (max_weight param / 5,
               filter (\<lambda>s. src_weight s < minw) srcs
                 @ split (filter (\<lambda>s. src_weight s \<ge> minw) srcs))
         else (max_weight param / 2, srcs))"

text \<open>
  The loop over \<open>blocks[:-1]\<close>: a block below \<open>minw\<close> extends the light sources, any
  other block is yielded as a subtask.
\<close>

fun heavy_light :: "real \<Rightarrow> Source list list \<Rightarrow> Source list \<Rightarrow> Source list list \<times> Source list" where
  "heavy_light minw [] light = ([], light)"
| "heavy_light minw (block # blocks) light =
     (if block_weight block < minw then heavy_light minw blocks (light @ block)
      else (case heavy_light minw blocks light of
              (heavy, light') \<Rightarrow> (block # heavy, light')))"

definition classical_split_filter ::
  "Params \<Rightarrow> (Source list \<Rightarrow> Source list) \<Rightarrow> Source list \<Rightarrow> yielded list" where
  "classical_split_filter param split srcs =
     (case maxw_sources param split srcs of (maxw, sources) \<Rightarrow>
        (let blocks = block_splitter sources maxw get_weight
         in if blocks = [] then [Empty_result]
            else (case heavy_light (min_weight param) (butlast blocks) (last blocks) of
                    (heavy, light) \<Rightarrow> map Subtask heavy @ [Result light])))"

section \<open>Auxiliary notions used to state the properties\<close>

text \<open>
  The convolution as the specification words it: entry \<open>k\<close> is the sum of
  \<open>o1[i] * o2[j]\<close> over all index pairs with \<open>i + j = k\<close>, and the result has
  \<open>n1 + n2 - 1\<close> entries. \<open>convolution_sum3\<close> is the same sum over index triples.
\<close>

definition convolution_sum :: "real list \<Rightarrow> real list \<Rightarrow> nat \<Rightarrow> real" where
  "convolution_sum o1 o2 k =
     (\<Sum>i<length o1. \<Sum>j<length o2. if i + j = k then o1 ! i * o2 ! j else 0)"

definition convolution :: "real list \<Rightarrow> real list \<Rightarrow> real list" where
  "convolution o1 o2 = map (convolution_sum o1 o2) [0..<length o1 + length o2 - 1]"

definition convolution_sum3 :: "real list \<Rightarrow> real list \<Rightarrow> real list \<Rightarrow> nat \<Rightarrow> real" where
  "convolution_sum3 a b c k =
     (\<Sum>i<length a. \<Sum>j<length b. \<Sum>l<length c.
        of_bool (i + j + l = k) * (a ! i * b ! j * c ! l))"

text \<open>The occurrence rate of a parametric context as a real number.\<close>

definition rate_of :: "RuptureContext \<Rightarrow> real" where
  "rate_of ctx = (case occurrence_rate ctx of Val r \<Rightarrow> r | NaN \<Rightarrow> 0)"

text \<open>
  What roundup may do to an array: the length is kept, an entry at or above the minimum
  is kept, and an entry that changes was below the minimum and becomes the minimum.
  \<open>attrs_rounded\<close> lifts this to a dictionary of arrays, whose names are kept.
\<close>

definition values_rounded :: "real \<Rightarrow> real list \<Rightarrow> real list \<Rightarrow> bool" where
  "values_rounded m old new \<longleftrightarrow>
     length new = length old \<and>
     (\<forall>j<length old. (m \<le> old ! j \<longrightarrow> new ! j = old ! j) \<and>
                      (new ! j \<noteq> old ! j \<longrightarrow> old ! j < m \<and> new ! j = m))"

definition attrs_rounded ::
  "real \<Rightarrow> (string \<times> real list) list \<Rightarrow> (string \<times> real list) list \<Rightarrow> bool" where
  "attrs_rounded m old new \<longleftrightarrow>
     list_all2 (\<lambda>(name, a) (name', a'). name' = name \<and> values_rounded m a a') old new"




text \<open>Concrete contexts on which the theorems are instantiated.\<close>

definition example_dctx :: DistancesContext where
  "example_dctx = [(''rrup'', [1 / 2, 3, 10]), (''rjb'', [0, 2, 9])]"

definition example_rctx :: RuptureContext where
  "example_rctx = \<lparr>rup_id = 0, occurrence_rate = Val (1 / 1000), probs_occur = [], sids = [0, 1, 2],
     weight = 1, rup_params = [(''mag'', 11 / 2)],
     dists = [(''rrup'', [1 / 2, 3, 10]), (''gc2t'', [-4, 0, 1])]\<rparr>"

text \<open>
  The contexts of \<open>test_mixed\<close> in \<open>contexts_test.py\<close>, with the Poisson model of
  that module over 50 years as the temporal occurrence model, and a context maker.
\<close>

definition example_tom :: "real \<Rightarrow> real \<Rightarrow> real" where
  "example_tom rate poe = exp (- (rate * 50) * poe)"

definition example_ctx :: "pyfloat \<Rightarrow> real list \<Rightarrow> RuptureContext" where
  "example_ctx rate probs = \<lparr>rup_id = 0, occurrence_rate = rate, probs_occur = probs, sids = [0],
     weight = 1, rup_params = [(''mag'', 11 / 2)], dists = [(''rrup'', [100])]\<rparr>"

definition example_ctxs :: "RuptureContext list" where
  "example_ctxs = [example_ctx (Val (1 / 1000)) [], example_ctx (Val (2 / 1000)) [],
     example_ctx NaN [999 / 1000, 1 / 1000], example_ctx NaN [998 / 1000, 2 / 1000]]"

definition example_cm :: ContextMaker where
  "example_cm = \<lparr>trt = ''Active Shallow Crust'', maximum_distance = (\<lambda>trt mag. 200),
     collapse_level = 2, REQUIRES_RUPTURE_PARAMETERS = [''mag''], REQUIRES_DISTANCES = [''rrup'']\<rparr>"



section \<open>Convolution of occurrence-count distributions\<close>

lemma inner_fold_length:
  "length (fold (\<lambda>j acc. acc[i + j := acc ! (i + j) + c j]) js acc) = length (acc :: real list)"
  by (induction js arbitrary: acc) auto

lemma inner_fold_nth:
  "k < length (acc :: real list) \<Longrightarrow>
   fold (\<lambda>j acc. acc[i + j := acc ! (i + j) + c j]) [0..<n] acc ! k
     = acc ! k + (\<Sum>j<n. if i + j = k then c j else 0)"
proof (induction n)
  case 0
  then show ?case by simp
next
  case (Suc n)
  then show ?case
    by (auto simp: inner_fold_length nth_list_update)
qed

lemma outer_fold_length:
  "length (fold (\<lambda>i. fold (\<lambda>j acc. acc[i + j := acc ! (i + j) + c i j]) [0..<n]) is acc) = length (acc :: real list)"
  by (induction "is" arbitrary: acc) (auto simp: inner_fold_length)

lemma outer_fold_nth:
  "k < length (acc :: real list) \<Longrightarrow>
   fold (\<lambda>i. fold (\<lambda>j acc. acc[i + j := acc ! (i + j) + c i j]) [0..<n]) [0..<m] acc ! k
     = acc ! k + (\<Sum>i<m. \<Sum>j<n. if i + j = k then c i j else 0)"
proof (induction m)
  case 0
  then show ?case by simp
next
  case (Suc m)
  then show ?case
    by (simp add: inner_fold_nth outer_fold_length)
qed

lemma combine_pmf_Inr:
  assumes "o1 \<noteq> [] \<or> o2 \<noteq> []"
  shows "combine_pmf o1 o2 = Inr (convolution o1 o2)"
proof -
  let ?n = "length o1 + length o2 - 1"
  let ?f = "fold (\<lambda>i. fold (\<lambda>j acc. acc[i + j := acc ! (i + j) + o1 ! i * o2 ! j]) [0..<length o2])
                       [0..<length o1] (replicate ?n 0)"
  from assms have pos: "length o1 + length o2 \<ge> 1"
    by (cases o1; cases o2) auto
  then have z: "zeros (int (length o1) + int (length o2) - 1) = Inr (replicate ?n 0)"
    by (auto simp: zeros_def nat_diff_distrib')
  have "?f = map (convolution_sum o1 o2) [0..<?n]"
    by (rule nth_equalityI) (simp_all add: outer_fold_length outer_fold_nth convolution_sum_def)
  with z show ?thesis
    by (simp add: combine_pmf_def Let_def convolution_def)
qed

lemma combine_pmf_empty: "combine_pmf [] [] = Inl ValueError"
  by (simp add: combine_pmf_def zeros_def)

lemma if_of_bool: "(if P then x else 0) = of_bool P * (x::real)"
  by simp

lemma convolution_sum_of_bool:
  "convolution_sum o1 o2 k = (\<Sum>i<length o1. \<Sum>j<length o2. of_bool (i + j = k) * (o1 ! i * o2 ! j))"
  unfolding convolution_sum_def by (intro sum.cong refl) simp

lemma convolution_sum_commute: "convolution_sum o1 o2 k = convolution_sum o2 o1 k"
  unfolding convolution_sum_def
  by (subst sum.swap) (intro sum.cong refl, simp add: add.commute mult.commute)

lemma delta_collapse:
  assumes "s < (N::nat)"
  shows "(\<Sum>m<N. of_bool (m + l = k) * (of_bool (s = m) * x)) = of_bool (s + l = k) * (x::real)"
proof -
  have "(\<Sum>m<N. of_bool (m + l = k) * (of_bool (s = m) * x))
        = (\<Sum>m\<in>{..<N}. if m = s then of_bool (m + l = k) * x else 0)"
    by (rule sum.cong) auto
  also have "\<dots> = of_bool (s + l = k) * x"
    by (subst sum.delta) (use assms in auto)
  finally show ?thesis .
qed

lemma conv_left:
  assumes "a \<noteq> []" "b \<noteq> []"
  shows "convolution_sum (convolution a b) c k = convolution_sum3 a b c k"
proof -
  let ?N = "length a + length b - 1"
  have "convolution_sum (map (convolution_sum a b) [0..<?N]) c k
      = (\<Sum>m<?N. \<Sum>l<length c. of_bool (m + l = k) * (convolution_sum a b m * c ! l))"
    by (simp add: convolution_sum_of_bool [of "map f xs" for f xs])
  also have "\<dots> = (\<Sum>m<?N. \<Sum>l<length c. \<Sum>i<length a. \<Sum>j<length b.
        of_bool (m + l = k) * (of_bool (i + j = m) * (a ! i * b ! j * c ! l)))"
    by (simp add: convolution_sum_of_bool sum_distrib_left sum_distrib_right mult_ac)
  also have "\<dots> = (\<Sum>i<length a. \<Sum>j<length b. \<Sum>l<length c. \<Sum>m<?N.
        of_bool (m + l = k) * (of_bool (i + j = m) * (a ! i * b ! j * c ! l)))"
  proof -
    have "(\<Sum>m<?N. \<Sum>l<length c. \<Sum>i<length a. \<Sum>j<length b.
        of_bool (m + l = k) * (of_bool (i + j = m) * (a ! i * b ! j * c ! l)))
      = (\<Sum>l<length c. \<Sum>m<?N. \<Sum>i<length a. \<Sum>j<length b.
        of_bool (m + l = k) * (of_bool (i + j = m) * (a ! i * b ! j * c ! l)))"
      by (rule sum.swap)
    also have "\<dots> = (\<Sum>l<length c. \<Sum>i<length a. \<Sum>m<?N. \<Sum>j<length b.
        of_bool (m + l = k) * (of_bool (i + j = m) * (a ! i * b ! j * c ! l)))"
      by (rule sum.cong [OF refl]) (rule sum.swap)
    also have "\<dots> = (\<Sum>l<length c. \<Sum>i<length a. \<Sum>j<length b. \<Sum>m<?N.
        of_bool (m + l = k) * (of_bool (i + j = m) * (a ! i * b ! j * c ! l)))"
      by (intro sum.cong [OF refl]) (rule sum.swap)
    also have "\<dots> = (\<Sum>i<length a. \<Sum>l<length c. \<Sum>j<length b. \<Sum>m<?N.
        of_bool (m + l = k) * (of_bool (i + j = m) * (a ! i * b ! j * c ! l)))"
      by (rule sum.swap)
    also have "\<dots> = (\<Sum>i<length a. \<Sum>j<length b. \<Sum>l<length c. \<Sum>m<?N.
        of_bool (m + l = k) * (of_bool (i + j = m) * (a ! i * b ! j * c ! l)))"
      by (rule sum.cong [OF refl]) (rule sum.swap)
    finally show ?thesis .
  qed
  also have "\<dots> = convolution_sum3 a b c k"
    unfolding convolution_sum3_def
  proof (intro sum.cong [OF refl])
    fix i j l
    assume "i \<in> {..<length a}" "j \<in> {..<length b}" "l \<in> {..<length c}"
    then have "i + j < ?N" by auto
    then show "(\<Sum>m<?N. of_bool (m + l = k) * (of_bool (i + j = m) * (a ! i * b ! j * c ! l)))
         = of_bool (i + j + l = k) * (a ! i * b ! j * c ! l)"
      by (rule delta_collapse)
  qed
  finally show ?thesis by (simp add: convolution_def)
qed

lemma convolution_sum3_rotate: "convolution_sum3 a b c k = convolution_sum3 b c a k"
proof -
  have "convolution_sum3 a b c k = (\<Sum>i<length a. \<Sum>j<length b. \<Sum>l<length c.
       of_bool (j + l + i = k) * (b ! j * c ! l * a ! i))"
    unfolding convolution_sum3_def by (simp add: add_ac mult_ac)
  also have "\<dots> = (\<Sum>j<length b. \<Sum>i<length a. \<Sum>l<length c.
       of_bool (j + l + i = k) * (b ! j * c ! l * a ! i))"
    by (rule sum.swap)
  also have "\<dots> = convolution_sum3 b c a k"
    unfolding convolution_sum3_def by (rule sum.cong [OF refl]) (rule sum.swap)
  finally show ?thesis .
qed

lemma conv_right:
  assumes "b \<noteq> []" "c \<noteq> []"
  shows "convolution_sum a (convolution b c) k = convolution_sum3 a b c k"
proof -
  have "convolution_sum a (convolution b c) k = convolution_sum (convolution b c) a k"
    by (rule convolution_sum_commute)
  also have "\<dots> = convolution_sum3 b c a k"
    by (rule conv_left [OF assms])
  also have "\<dots> = convolution_sum3 a b c k"
    by (rule convolution_sum3_rotate [symmetric])
  finally show ?thesis .
qed

lemma length_conv: "length (convolution a b) = length a + length b - 1"
  by (simp add: convolution_def)

lemma conv_assoc:
  assumes "a \<noteq> []" "b \<noteq> []" "c \<noteq> []"
  shows "convolution (convolution a b) c = convolution a (convolution b c)"
proof -
  have len: "length (convolution a b) + length c - 1 = length a + length (convolution b c) - 1"
    using assms by (cases a; cases b; cases c) (auto simp: length_conv)
  have "convolution (convolution a b) c = map (convolution_sum3 a b c) [0..<length (convolution a b) + length c - 1]"
    unfolding convolution_def [of "convolution a b" c] using assms by (intro map_cong refl conv_left)
  also have "\<dots> = convolution a (convolution b c)"
    unfolding convolution_def [of a "convolution b c"] len
    using assms by (intro map_cong refl conv_right [symmetric])
  finally show ?thesis .
qed

lemma conv_nonempty: "a \<noteq> [] \<Longrightarrow> b \<noteq> [] \<Longrightarrow> convolution a b \<noteq> []"
  by (cases a; cases b) (auto simp: convolution_def)

lemma conv_commute: "convolution a b = convolution b a"
  unfolding convolution_def
  by (rule map_cong) (simp_all add: add.commute convolution_sum_commute [of a b])

lemma prob_no_exceed_sum:
  "prob_no_exceed probs poe = (\<Sum>i<length probs. probs ! i * (1 - poe) ^ i)"
proof -
  have "prob_no_exceed probs poe
      = (\<Sum>i = 0..<length probs. (map (\<lambda>(i, v). v * (1 - poe) ^ i) (enumerate 0 probs)) ! i)"
    unfolding prob_no_exceed_def by (subst sum_list_sum_nth) simp
  also have "\<dots> = (\<Sum>i = 0..<length probs. probs ! i * (1 - poe) ^ i)"
    by (intro sum.cong refl) (simp add: nth_enumerate_eq)
  finally show ?thesis by (simp add: atLeast0LessThan)
qed

lemma delta_power:
  assumes "s < (N::nat)"
  shows "(\<Sum>k<N. of_bool (s = k) * c * x ^ k) = c * (x::real) ^ s"
proof -
  have "(\<Sum>k<N. of_bool (s = k) * c * x ^ k) = (\<Sum>k\<in>{..<N}. if k = s then c * x ^ k else 0)"
    by (rule sum.cong) auto
  also have "\<dots> = c * x ^ s"
    by (subst sum.delta) (use assms in auto)
  finally show ?thesis .
qed

lemma eval_conv:
  assumes "a \<noteq> []" "b \<noteq> []"
  shows "(\<Sum>k<length a + length b - 1. convolution_sum a b k * x ^ k)
       = (\<Sum>i<length a. a ! i * x ^ i) * (\<Sum>j<length b. b ! j * x ^ j)"
proof -
  let ?N = "length a + length b - 1"
  have "(\<Sum>k<?N. convolution_sum a b k * x ^ k)
      = (\<Sum>k<?N. \<Sum>i<length a. \<Sum>j<length b. of_bool (i + j = k) * (a ! i * b ! j) * x ^ k)"
    by (simp only: convolution_sum_of_bool sum_distrib_right)
  also have "\<dots> = (\<Sum>i<length a. \<Sum>k<?N. \<Sum>j<length b. of_bool (i + j = k) * (a ! i * b ! j) * x ^ k)"
    by (rule sum.swap)
  also have "\<dots> = (\<Sum>i<length a. \<Sum>j<length b. \<Sum>k<?N. of_bool (i + j = k) * (a ! i * b ! j) * x ^ k)"
    by (rule sum.cong [OF refl]) (rule sum.swap)
  also have "\<dots> = (\<Sum>i<length a. \<Sum>j<length b. (a ! i * b ! j) * x ^ (i + j))"
  proof (intro sum.cong [OF refl])
    fix i j
    assume "i \<in> {..<length a}" "j \<in> {..<length b}"
    then have "i + j < ?N" by auto
    then show "(\<Sum>k<?N. of_bool (i + j = k) * (a ! i * b ! j) * x ^ k) = (a ! i * b ! j) * x ^ (i + j)"
      by (rule delta_power)
  qed
  also have "\<dots> = (\<Sum>i<length a. a ! i * x ^ i) * (\<Sum>j<length b. b ! j * x ^ j)"
    by (simp add: sum_product power_add mult_ac)
  finally show ?thesis .
qed

lemma prob_no_exceed_conv:
  assumes "a \<noteq> []" "b \<noteq> []"
  shows "prob_no_exceed (convolution a b) poe = prob_no_exceed a poe * prob_no_exceed b poe"
  using eval_conv [OF assms, of "1 - poe"] by (simp add: prob_no_exceed_sum convolution_def)

lemma sum_list_conv:
  assumes "a \<noteq> []" "b \<noteq> []"
  shows "sum_list (convolution a b) = sum_list a * sum_list b"
  using eval_conv [OF assms, of 1] by (simp add: sum_list_sum_nth atLeast0LessThan convolution_def)

lemma convolution_sum_nonneg:
  assumes "list_all (\<lambda>p. 0 \<le> p) a" "list_all (\<lambda>p. 0 \<le> p) b"
  shows "0 \<le> convolution_sum a b k"
  unfolding convolution_sum_def using assms
  by (intro sum_nonneg) (auto simp: list_all_length)

lemma is_pmf_conv:
  assumes "is_pmf a" "is_pmf b"
  shows "is_pmf (convolution a b)"
proof -
  from assms have ne: "a \<noteq> []" "b \<noteq> []" by (auto simp: is_pmf_def)
  then have "convolution a b \<noteq> []" by (rule conv_nonempty)
  moreover have "list_all (\<lambda>p. 0 \<le> p) (convolution a b)"
    using assms by (auto simp: list_all_iff is_pmf_def convolution_def intro!: convolution_sum_nonneg)
  moreover have "sum_list (convolution a b) = 1"
    using sum_list_conv [OF ne] assms by (simp add: is_pmf_def)
  ultimately show ?thesis by (simp add: is_pmf_def)
qed

lemma prob_no_exceed_bounds:
  assumes "is_pmf probs" "0 \<le> poe" "poe \<le> 1"
  shows "0 \<le> prob_no_exceed probs poe" "prob_no_exceed probs poe \<le> 1"
proof -
  have nn: "\<And>i. i < length probs \<Longrightarrow> 0 \<le> probs ! i"
    using assms(1) by (simp add: is_pmf_def list_all_length)
  have x: "0 \<le> 1 - poe" "1 - poe \<le> 1" using assms by simp_all
  show "0 \<le> prob_no_exceed probs poe"
    unfolding prob_no_exceed_sum using nn x by (intro sum_nonneg) simp
  have "prob_no_exceed probs poe \<le> (\<Sum>i<length probs. probs ! i)"
    unfolding prob_no_exceed_sum
  proof (rule sum_mono)
    fix i assume "i \<in> {..<length probs}"
    then have "0 \<le> probs ! i" using nn by simp
    moreover have "(1 - poe) ^ i \<le> 1" using x by (simp add: power_le_one)
    ultimately show "probs ! i * (1 - poe) ^ i \<le> probs ! i"
      by (simp add: mult_left_le)
  qed
  also have "\<dots> = 1"
    using assms(1) by (simp add: is_pmf_def sum_list_sum_nth atLeast0LessThan)
  finally show "prob_no_exceed probs poe \<le> 1" .
qed

text \<open>
  Claim C2. \<open>combine_pmf\<close> is commutative; unless both arguments are empty it returns
  an array of \<open>n1 + n2 - 1\<close> entries whose entry \<open>k\<close> is the convolution sum over the
  index pairs with \<open>i + j = k\<close>; on non-empty arguments it is associative, and it
  preserves mass: two distributions that each sum to 1 combine to one that sums to 1.
  (Two empty arguments make \<open>numpy.zeros(-1)\<close> raise.)
\<close>

theorem combine_pmf_convolution:
  "combine_pmf o1 o2 = combine_pmf o2 o1 \<and>
   (o1 \<noteq> [] \<or> o2 \<noteq> [] \<longrightarrow>
      (\<exists>out. combine_pmf o1 o2 = Inr out \<and>
             int (length out) = int (length o1) + int (length o2) - 1 \<and>
             (\<forall>k<length out. out ! k = convolution_sum o1 o2 k))) \<and>
   (o1 \<noteq> [] \<and> o2 \<noteq> [] \<and> o3 \<noteq> [] \<longrightarrow>
      (case combine_pmf o1 o2 of Inl e \<Rightarrow> Inl e | Inr o12 \<Rightarrow> combine_pmf o12 o3)
        = (case combine_pmf o2 o3 of Inl e \<Rightarrow> Inl e | Inr o23 \<Rightarrow> combine_pmf o1 o23)) \<and>
   (o1 \<noteq> [] \<and> o2 \<noteq> [] \<and> sum_list o1 = 1 \<and> sum_list o2 = 1 \<longrightarrow>
      (\<exists>out. combine_pmf o1 o2 = Inr out \<and> sum_list out = 1))"
proof (intro conjI impI)
  show "combine_pmf o1 o2 = combine_pmf o2 o1"
  proof (cases "o1 = [] \<and> o2 = []")
    case True
    then show ?thesis by simp
  next
    case False
    then show ?thesis
      using conv_commute [of o1 o2] by (auto simp: combine_pmf_Inr)
  qed
next
  assume ne: "o1 \<noteq> [] \<or> o2 \<noteq> []"
  then have "length o1 + length o2 \<ge> 1" by (cases o1; cases o2) auto
  then have "int (length (convolution o1 o2)) = int (length o1) + int (length o2) - 1"
    by (simp add: length_conv)
  moreover have "\<forall>k<length (convolution o1 o2). convolution o1 o2 ! k = convolution_sum o1 o2 k"
    by (simp add: convolution_def)
  ultimately show "\<exists>out. combine_pmf o1 o2 = Inr out \<and>
             int (length out) = int (length o1) + int (length o2) - 1 \<and>
             (\<forall>k<length out. out ! k = convolution_sum o1 o2 k)"
    using combine_pmf_Inr [OF ne] by blast
next
  assume ne: "o1 \<noteq> [] \<and> o2 \<noteq> [] \<and> o3 \<noteq> []"
  then have "convolution o1 o2 \<noteq> []" "convolution o2 o3 \<noteq> []"
    by (simp_all add: conv_nonempty)
  with ne show "(case combine_pmf o1 o2 of Inl e \<Rightarrow> Inl e | Inr o12 \<Rightarrow> combine_pmf o12 o3)
        = (case combine_pmf o2 o3 of Inl e \<Rightarrow> Inl e | Inr o23 \<Rightarrow> combine_pmf o1 o23)"
    by (simp add: combine_pmf_Inr conv_assoc)
next
  assume "o1 \<noteq> [] \<and> o2 \<noteq> [] \<and> sum_list o1 = 1 \<and> sum_list o2 = 1"
  then show "\<exists>out. combine_pmf o1 o2 = Inr out \<and> sum_list out = 1"
    by (simp add: combine_pmf_Inr sum_list_conv)
qed

theorem combine_pmf_convolution_witness:
  "combine_pmf [99 / 100, 1 / 100] [98 / 100, 2 / 100] = Inr [9702 / 10000, 296 / 10000, 2 / 10000] \<and>
   combine_pmf [99 / 100, 1 / 100] [98 / 100, 2 / 100] = combine_pmf [98 / 100, 2 / 100] [99 / 100, 1 / 100] \<and>
   (\<exists>out. combine_pmf [99 / 100, 1 / 100] [98 / 100, 2 / 100] = Inr out \<and> length out = 3 \<and> sum_list out = 1) \<and>
   (case combine_pmf [99 / 100, 1 / 100] [98 / 100, 2 / 100] of Inl e \<Rightarrow> Inl e
      | Inr o12 \<Rightarrow> combine_pmf o12 [1 / 2, 1 / 2])
     = (case combine_pmf [98 / 100, 2 / 100] [1 / 2, 1 / 2] of Inl e \<Rightarrow> Inl e
      | Inr o23 \<Rightarrow> combine_pmf [99 / 100, 1 / 100] o23)"
proof -
  note inst = combine_pmf_convolution
    [of "[99 / 100, 1 / 100]" "[98 / 100, 2 / 100]" "[1 / 2, 1 / 2]"]
  have v: "combine_pmf [99 / 100, 1 / 100] [98 / 100, 2 / 100]
             = Inr [9702 / 10000, 296 / 10000, 2 / 10000]"
    by (simp add: combine_pmf_def zeros_def Let_def upt_rec numeral_2_eq_2 numeral_3_eq_3)
  have c: "combine_pmf [99 / 100, 1 / 100] [98 / 100, 2 / 100]
             = combine_pmf [98 / 100, 2 / 100] [99 / 100, 1 / 100]"
    using inst by blast
  have m: "\<exists>out. combine_pmf [99 / 100, 1 / 100] [98 / 100, 2 / 100] = Inr out \<and>
             length out = 3 \<and> sum_list out = 1"
    unfolding v by simp
  have a: "(case combine_pmf [99 / 100, 1 / 100] [98 / 100, 2 / 100] of Inl e \<Rightarrow> Inl e
      | Inr o12 \<Rightarrow> combine_pmf o12 [1 / 2, 1 / 2])
     = (case combine_pmf [98 / 100, 2 / 100] [1 / 2, 1 / 2] of Inl e \<Rightarrow> Inl e
      | Inr o23 \<Rightarrow> combine_pmf [99 / 100, 1 / 100] o23)"
    using inst by blast
  from v c m a show ?thesis by (intro conjI)
qed

section \<open>Collapsing preserves the composed probability\<close>

lemma reduce_combine_pmf_ok:
  assumes "is_pmf acc" "\<forall>p\<in>set ps. is_pmf p"
  shows "\<exists>out. reduce_combine_pmf acc ps = Inr out \<and> is_pmf out \<and>
           prob_no_exceed out poe
             = prob_no_exceed acc poe * prod_list (map (\<lambda>p. prob_no_exceed p poe) ps)"
  using assms
proof (induction ps arbitrary: acc)
  case Nil
  then show ?case by simp
next
  case (Cons p ps)
  let ?c = "convolution acc p"
  from Cons.prems have ne: "acc \<noteq> []" "p \<noteq> []" by (auto simp: is_pmf_def)
  then have c: "combine_pmf acc p = Inr ?c" by (simp add: combine_pmf_Inr)
  have "is_pmf ?c" using Cons.prems by (intro is_pmf_conv) auto
  from Cons.IH [OF this] Cons.prems(2)
  obtain out where "reduce_combine_pmf ?c ps = Inr out" "is_pmf out"
    "prob_no_exceed out poe = prob_no_exceed ?c poe * prod_list (map (\<lambda>p. prob_no_exceed p poe) ps)"
    by auto
  then show ?case
    using c by (simp add: prob_no_exceed_conv [OF ne] mult.assoc)
qed

lemma foldl_fadd_Val:
  assumes "\<forall>c\<in>set cs. \<not> isnan (occurrence_rate c)"
  shows "foldl fadd (Val a) (map occurrence_rate cs) = Val (a + sum_list (map rate_of cs))"
  using assms
proof (induction cs arbitrary: a)
  case Nil
  then show ?case by simp
next
  case (Cons c cs)
  then obtain r where r: "occurrence_rate c = Val r"
    by (cases "occurrence_rate c") auto
  with Cons show ?case by (simp add: rate_of_def add.assoc)
qed

lemma prod_tom:
  assumes mult: "\<forall>r1 r2 p. tom (r1 + r2) p = tom r1 p * tom r2 (p::real)"
  shows "prod_list (map (\<lambda>r. tom r p) (r # rs)) = (tom (r + sum_list rs) p :: real)"
  by (induction rs arbitrary: r) (simp_all add: mult add.assoc [symmetric] mult.assoc [symmetric])

lemma prod_list_filter_split:
  "prod_list (map f xs) = prod_list (map f (filter P xs)) * (prod_list (map f (filter (\<lambda>x. \<not> P x) xs)) :: real)"
  by (induction xs) simp_all

lemma pne1_param: "occurrence_rate c = Val r \<Longrightarrow> pne1 tom c p = tom r p"
  by (simp add: pne1_def)

lemma pne1_nonparam:
  "occurrence_rate c = NaN \<Longrightarrow> pne1 tom c p = clip (prob_no_exceed (probs_occur c) p) 0 1"
  by (simp add: pne1_def)

lemma clip_id: "0 \<le> x \<Longrightarrow> x \<le> 1 \<Longrightarrow> clip x 0 1 = x"
  by (simp add: clip_def)

lemma compose_param:
  assumes mult: "\<forall>r1 r2 p. tom (r1 + r2) p = tom r1 p * tom r2 (p::real)"
    and par: "\<forall>c\<in>set cs. \<not> isnan (occurrence_rate c)"
    and poe: "\<forall>c\<in>set cs. poe c = p"
    and ne: "cs \<noteq> []"
    and inv: "\<And>c r. poe (c\<lparr>occurrence_rate := r\<rparr>) = poe c"
  shows "compose_pne tom poe [(hd cs)\<lparr>occurrence_rate := foldl fadd (Val 0) (map occurrence_rate cs)\<rparr>]
       = compose_pne tom poe cs"
proof -
  have val: "\<And>c. c \<in> set cs \<Longrightarrow> occurrence_rate c = Val (rate_of c)"
  proof -
    fix c assume "c \<in> set cs"
    with par have "\<not> isnan (occurrence_rate c)" by simp
    then show "occurrence_rate c = Val (rate_of c)"
      by (cases "occurrence_rate c") (simp_all add: rate_of_def)
  qed
  obtain c cs' where cs: "cs = c # cs'" using ne by (cases cs) auto
  have "compose_pne tom poe cs = prod_list (map (\<lambda>c. tom (rate_of c) p) cs)"
    unfolding compose_pne_def
    by (rule arg_cong [where f = prod_list], rule map_cong [OF refl])
       (simp add: pne1_param [OF val] poe)
  also have "\<dots> = prod_list (map (\<lambda>r. tom r p) (rate_of c # map rate_of cs'))"
    by (simp add: cs comp_def)
  also have "\<dots> = tom (rate_of c + sum_list (map rate_of cs')) p"
    by (rule prod_tom [OF mult])
  finally have rhs: "compose_pne tom poe cs = tom (sum_list (map rate_of cs)) p"
    by (simp add: cs)
  have "poe (hd cs) = p" using poe cs by simp
  then have "compose_pne tom poe [(hd cs)\<lparr>occurrence_rate := foldl fadd (Val 0) (map occurrence_rate cs)\<rparr>]
      = tom (sum_list (map rate_of cs)) p"
    by (simp add: compose_pne_def foldl_fadd_Val [OF par] pne1_def inv)
  with rhs show ?thesis by simp
qed

lemma compose_nonparam:
  assumes non: "\<forall>c\<in>set cs. isnan (occurrence_rate c)"
    and valid: "\<forall>c\<in>set cs. is_pmf (probs_occur c)"
    and poe: "\<forall>c\<in>set cs. poe c = p"
    and p: "0 \<le> p" "p \<le> 1"
    and ne: "cs \<noteq> []"
    and inv: "\<And>c q. poe (c\<lparr>probs_occur := q\<rparr>) = poe c"
  shows "\<exists>pmf. reduce_combine_pmf (probs_occur (hd cs)) (map probs_occur (tl cs)) = Inr pmf \<and>
           is_pmf pmf \<and>
           compose_pne tom poe [(hd cs)\<lparr>probs_occur := pmf\<rparr>] = compose_pne tom poe cs"
proof -
  obtain c cs' where cs: "cs = c # cs'" using ne by (cases cs) auto
  have nan: "\<And>c. c \<in> set cs \<Longrightarrow> occurrence_rate c = NaN"
  proof -
    fix c assume "c \<in> set cs"
    with non have "isnan (occurrence_rate c)" by simp
    then show "occurrence_rate c = NaN" by (cases "occurrence_rate c") simp_all
  qed
  have each: "\<And>c. c \<in> set cs \<Longrightarrow> pne1 tom c (poe c) = prob_no_exceed (probs_occur c) p"
    using valid poe p by (simp add: pne1_nonparam [OF nan] clip_id prob_no_exceed_bounds)
  have "is_pmf (probs_occur c)" "\<forall>q\<in>set (map probs_occur cs'). is_pmf q"
    using valid cs by auto
  from reduce_combine_pmf_ok [OF this, of p]
  obtain pmf where pmf: "reduce_combine_pmf (probs_occur c) (map probs_occur cs') = Inr pmf"
    "is_pmf pmf"
    "prob_no_exceed pmf p = prob_no_exceed (probs_occur c) p *
        prod_list (map (\<lambda>q. prob_no_exceed q p) (map probs_occur cs'))"
    by auto
  have "compose_pne tom poe cs = prod_list (map (\<lambda>c. prob_no_exceed (probs_occur c) p) cs)"
    unfolding compose_pne_def
    by (rule arg_cong [where f = prod_list], rule map_cong [OF refl]) (rule each)
  also have "\<dots> = prob_no_exceed pmf p"
    by (simp add: cs pmf(3) comp_def)
  finally have rhs: "compose_pne tom poe cs = prob_no_exceed pmf p" .
  have "poe c = p" "occurrence_rate c = NaN" using poe nan cs by simp_all
  then have "compose_pne tom poe [c\<lparr>probs_occur := pmf\<rparr>] = prob_no_exceed pmf p"
    using pmf(2) p by (simp add: compose_pne_def pne1_def inv clip_id prob_no_exceed_bounds)
  with rhs pmf(1,2) show ?thesis by (simp add: cs)
qed

lemma compose_pne_append:
  "compose_pne tom poe (xs @ ys) = compose_pne tom poe xs * compose_pne tom poe ys"
  by (simp add: compose_pne_def)

lemma compose_pne_split:
  "compose_pne tom poe ctxs
     = compose_pne tom poe (filter (\<lambda>ctx. \<not> isnan (occurrence_rate ctx)) ctxs)
       * compose_pne tom poe (filter (\<lambda>ctx. isnan (occurrence_rate ctx)) ctxs)"
  unfolding compose_pne_def
  using prod_list_filter_split [of "\<lambda>ctx. pne1 tom ctx (poe ctx)" ctxs "\<lambda>ctx. \<not> isnan (occurrence_rate ctx)"]
  by simp

lemma collapse_ok:
  assumes mult: "\<forall>r1 r2 p. tom (r1 + r2) p = tom r1 p * tom r2 (p::real)"
    and valid: "\<forall>c\<in>set ctxs. isnan (occurrence_rate c) \<longrightarrow> is_pmf (probs_occur c)"
    and p: "0 \<le> p" "p \<le> 1"
    and poe: "\<forall>c\<in>set ctxs. poe c = p"
    and inv1: "\<And>c r. poe (c\<lparr>occurrence_rate := r\<rparr>) = poe c"
    and inv2: "\<And>c q. poe (c\<lparr>probs_occur := q\<rparr>) = poe c"
  shows "\<exists>out. collapse ctxs = Inr out \<and> length out \<le> length ctxs \<and>
           compose_pne tom poe out = compose_pne tom poe ctxs"
proof (cases "length ctxs < 2")
  case True
  then show ?thesis by (simp add: collapse_def)
next
  case False
  let ?P = "filter (\<lambda>ctx. \<not> isnan (occurrence_rate ctx)) ctxs"
  let ?N = "filter (\<lambda>ctx. isnan (occurrence_rate ctx)) ctxs"
  let ?out1 = "if length ?P > 1
               then [(hd ?P)\<lparr>occurrence_rate := foldl fadd (Val 0) (map occurrence_rate ?P)\<rparr>]
               else ?P"
  have len: "length ?P + length ?N = length ctxs"
    using sum_length_filter_compl [of "\<lambda>ctx. \<not> isnan (occurrence_rate ctx)" ctxs] by simp
  have out1: "compose_pne tom poe ?out1 = compose_pne tom poe ?P"
  proof (cases "length ?P > 1")
    case True
    then have ne: "?P \<noteq> []" by auto
    have "compose_pne tom poe
            [(hd ?P)\<lparr>occurrence_rate := foldl fadd (Val 0) (map occurrence_rate ?P)\<rparr>]
          = compose_pne tom poe ?P"
    proof (rule compose_param [OF mult])
      show "\<forall>c\<in>set ?P. \<not> isnan (occurrence_rate c)" by simp
      show "\<forall>c\<in>set ?P. poe c = p" using poe by simp
      show "?P \<noteq> []" by (rule ne)
      show "\<And>c r. poe (c\<lparr>occurrence_rate := r\<rparr>) = poe c" by (rule inv1)
    qed
    with True show ?thesis by simp
  next
    case False
    then show ?thesis by simp
  qed
  have len1: "length ?out1 \<le> length ?P" by simp
  show ?thesis
  proof (cases "length ?N > 1")
    case True
    then have ne: "?N \<noteq> []" by auto
    have "\<exists>pmf. reduce_combine_pmf (probs_occur (hd ?N)) (map probs_occur (tl ?N)) = Inr pmf \<and>
           is_pmf pmf \<and>
           compose_pne tom poe [(hd ?N)\<lparr>probs_occur := pmf\<rparr>] = compose_pne tom poe ?N"
    proof (rule compose_nonparam)
      show "\<forall>c\<in>set ?N. isnan (occurrence_rate c)" by simp
      show "\<forall>c\<in>set ?N. is_pmf (probs_occur c)" using valid by simp
      show "\<forall>c\<in>set ?N. poe c = p" using poe by simp
      show "0 \<le> p" "p \<le> 1" by (rule p)+
      show "?N \<noteq> []" by (rule ne)
      show "\<And>c q. poe (c\<lparr>probs_occur := q\<rparr>) = poe c" by (rule inv2)
    qed
    then obtain pmf where pmf:
      "reduce_combine_pmf (probs_occur (hd ?N)) (map probs_occur (tl ?N)) = Inr pmf"
      "compose_pne tom poe [(hd ?N)\<lparr>probs_occur := pmf\<rparr>] = compose_pne tom poe ?N"
      by blast
    have c: "collapse ctxs = Inr (?out1 @ [(hd ?N)\<lparr>probs_occur := pmf\<rparr>])"
      using False True pmf(1) by (simp add: collapse_def Let_def)
    have "length (?out1 @ [(hd ?N)\<lparr>probs_occur := pmf\<rparr>]) \<le> length ctxs"
      using len len1 True by simp
    moreover have "compose_pne tom poe (?out1 @ [(hd ?N)\<lparr>probs_occur := pmf\<rparr>])
        = compose_pne tom poe ctxs"
      unfolding compose_pne_append out1 pmf(2) by (rule compose_pne_split [symmetric])
    ultimately show ?thesis using c by blast
  next
    case N: False
    have c: "collapse ctxs = Inr (?out1 @ ?N)"
      using False N by (simp add: collapse_def Let_def)
    have "length (?out1 @ ?N) \<le> length ctxs"
      using len len1 by simp
    moreover have "compose_pne tom poe (?out1 @ ?N) = compose_pne tom poe ctxs"
      unfolding compose_pne_append out1 by (rule compose_pne_split [symmetric])
    ultimately show ?thesis using c by blast
  qed
qed

lemma keyed_Inr:
  "keyed key xs = Inr kxs \<Longrightarrow> map snd kxs = xs \<and> (\<forall>(k, x)\<in>set kxs. key x = Inr k)"
  by (induction xs arbitrary: kxs) (auto split: sum.splits)

lemma keyed_ok:
  "\<forall>x\<in>set xs. \<exists>k. key x = Inr k \<Longrightarrow> \<exists>kxs. keyed key xs = Inr kxs"
  by (induction xs) (auto split: sum.splits)

lemma groups_members:
  "(k, g) \<in> set (groups kxs) \<Longrightarrow> x \<in> set g \<Longrightarrow> (k, x) \<in> set kxs"
proof (induction kxs arbitrary: k g rule: groups.induct)
  case 1
  then show ?case by simp
next
  case (2 k' y kxs)
  from "2.prems"(1) consider
      (hd) "k = k'" "g = y # map snd (filter (\<lambda>p. fst p = k') kxs)"
    | (tl) "(k, g) \<in> set (groups (filter (\<lambda>p. fst p \<noteq> k') kxs))"
    by auto
  then show ?case
  proof cases
    case hd
    with "2.prems"(2) have "x = y \<or> x \<in> snd ` {p \<in> set kxs. fst p = k'}" by auto
    then show ?thesis using hd(1) by force
  next
    case tl
    from "2.IH" [OF tl "2.prems"(2)] show ?thesis by simp
  qed
qed

lemma groups_length:
  "length (concat (map snd (groups kxs))) = length kxs"
proof (induction kxs rule: groups.induct)
  case 1
  then show ?case by simp
next
  case (2 k x kxs)
  have "length (filter (\<lambda>p. fst p = k) kxs) + length (filter (\<lambda>p. fst p \<noteq> k) kxs) = length kxs"
    using sum_length_filter_compl [of "\<lambda>p. fst p = k" kxs] by simp
  with 2 show ?case by simp
qed

lemma groups_prod:
  "prod_list (map f (concat (map snd (groups kxs)))) = (prod_list (map f (map snd kxs)) :: real)"
proof (induction kxs rule: groups.induct)
  case 1
  then show ?case by simp
next
  case (2 k x kxs)
  have "prod_list (map (f \<circ> snd) kxs)
        = prod_list (map (f \<circ> snd) (filter (\<lambda>p. fst p = k) kxs))
          * prod_list (map (f \<circ> snd) (filter (\<lambda>p. \<not> fst p = k) kxs))"
    by (rule prod_list_filter_split)
  with 2 show ?case by (simp add: comp_def)
qed

lemma collapse_groups_ok:
  assumes mult: "\<forall>r1 r2 p. tom (r1 + r2) p = tom r1 p * tom r2 (p::real)"
    and valid: "\<forall>g\<in>set gs. \<forall>c\<in>set g. isnan (occurrence_rate c) \<longrightarrow> is_pmf (probs_occur c)"
    and poe: "\<forall>g\<in>set gs. \<exists>p. 0 \<le> p \<and> p \<le> 1 \<and> (\<forall>c\<in>set g. poe c = p)"
    and inv1: "\<And>c r. poe (c\<lparr>occurrence_rate := r\<rparr>) = poe c"
    and inv2: "\<And>c q. poe (c\<lparr>probs_occur := q\<rparr>) = poe c"
  shows "\<exists>out. collapse_groups gs = Inr out \<and> length out \<le> length (concat gs) \<and>
           compose_pne tom poe out = compose_pne tom poe (concat gs)"
  using valid poe
proof (induction gs)
  case Nil
  then show ?case by simp
next
  case (Cons g gs)
  from Cons.prems(2) obtain p where p: "0 \<le> p" "p \<le> 1" "\<forall>c\<in>set g. poe c = p"
    by auto
  have v: "\<forall>c\<in>set g. isnan (occurrence_rate c) \<longrightarrow> is_pmf (probs_occur c)"
    using Cons.prems(1) by simp
  have "\<exists>out. collapse g = Inr out \<and> length out \<le> length g \<and>
           compose_pne tom poe out = compose_pne tom poe g"
    by (rule collapse_ok [where poe = poe and p = p, OF mult v p(1) p(2) p(3) inv1 inv2])
  then obtain cs where cs: "collapse g = Inr cs" "length cs \<le> length g"
    "compose_pne tom poe cs = compose_pne tom poe g"
    by blast
  from Cons.IH Cons.prems
  obtain out where out: "collapse_groups gs = Inr out" "length out \<le> length (concat gs)"
    "compose_pne tom poe out = compose_pne tom poe (concat gs)"
    by auto
  show ?case
    using cs out by (simp add: compose_pne_append)
qed

lemma params_update_rate [simp]: "params cm (c\<lparr>occurrence_rate := r\<rparr>) = params cm c"
  by (simp add: params_def cong: sum.case_cong)

lemma params_update_probs [simp]: "params cm (c\<lparr>probs_occur := q\<rparr>) = params cm c"
  by (simp add: params_def cong: sum.case_cong)

lemma collapse_the_ctxs_ok:
  assumes mult: "\<forall>r1 r2 p. tom (r1 + r2) p = tom r1 p * tom r2 (p::real)"
    and valid: "\<forall>c\<in>set ctxs. isnan (occurrence_rate c) \<longrightarrow> is_pmf (probs_occur c)"
    and g: "\<forall>k. 0 \<le> g k \<and> g k \<le> (1::real)"
    and keys: "\<forall>c\<in>set ctxs. \<exists>k. params cm c = Inr k"
  shows "\<exists>out. collapse_the_ctxs cm ctxs = Inr out \<and> length out \<le> length ctxs \<and>
           compose_pne tom (\<lambda>c. g (params cm c)) out
             = compose_pne tom (\<lambda>c. g (params cm c)) ctxs"
proof (cases "length ctxs = 1")
  case True
  then show ?thesis by (simp add: collapse_the_ctxs_def)
next
  case False
  let ?poe = "\<lambda>c. g (params cm c)"
  from keyed_ok [OF keys] obtain kxs where kxs: "keyed (params cm) ctxs = Inr kxs" by blast
  from keyed_Inr [OF this]
  have snd: "map snd kxs = ctxs" and key: "\<forall>(k, x)\<in>set kxs. params cm x = Inr k" by simp_all
  let ?gs = "map snd (groups kxs)"
  have "\<exists>out. collapse_groups ?gs = Inr out \<and> length out \<le> length (concat ?gs) \<and>
           compose_pne tom ?poe out = compose_pne tom ?poe (concat ?gs)"
  proof (rule collapse_groups_ok [OF mult])
    show "\<forall>g\<in>set ?gs. \<forall>c\<in>set g. isnan (occurrence_rate c) \<longrightarrow> is_pmf (probs_occur c)"
    proof (intro ballI)
      fix grp c assume "grp \<in> set ?gs" "c \<in> set grp"
      then obtain k where "(k, grp) \<in> set (groups kxs)" by auto
      then have "(k, c) \<in> set kxs" using \<open>c \<in> set grp\<close> by (rule groups_members)
      then have "c \<in> set ctxs" using snd by force
      with valid show "isnan (occurrence_rate c) \<longrightarrow> is_pmf (probs_occur c)" by simp
    qed
    show "\<forall>grp\<in>set ?gs. \<exists>p. 0 \<le> p \<and> p \<le> 1 \<and> (\<forall>c\<in>set grp. ?poe c = p)"
    proof
      fix grp assume "grp \<in> set ?gs"
      then obtain k where k: "(k, grp) \<in> set (groups kxs)" by auto
      have "\<forall>c\<in>set grp. ?poe c = g (Inr k)"
      proof
        fix c assume "c \<in> set grp"
        with k have "(k, c) \<in> set kxs" by (simp add: groups_members)
        with key have "params cm c = Inr k" by auto
        then show "?poe c = g (Inr k)" by simp
      qed
      with g show "\<exists>p. 0 \<le> p \<and> p \<le> 1 \<and> (\<forall>c\<in>set grp. ?poe c = p)" by blast
    qed
  qed simp_all
  then obtain out where out: "collapse_groups ?gs = Inr out" "length out \<le> length (concat ?gs)"
    "compose_pne tom ?poe out = compose_pne tom ?poe (concat ?gs)"
    by blast
  have "length (concat ?gs) = length ctxs"
    using groups_length [of kxs] snd by (metis length_map)
  moreover have "compose_pne tom ?poe (concat ?gs) = compose_pne tom ?poe ctxs"
    unfolding compose_pne_def using groups_prod [of "\<lambda>c. pne1 tom c (?poe c)" kxs] snd by simp
  moreover have "collapse_the_ctxs cm ctxs = Inr out"
    using False kxs out(1) by (simp add: collapse_the_ctxs_def groupby_def)
  ultimately show ?thesis using out by simp
qed

lemma collapse_kinds:
  assumes "collapse ctxs = Inr out"
  shows "map occurrence_rate (filter (\<lambda>c. \<not> isnan (occurrence_rate c)) out)
           = (let prups = filter (\<lambda>c. \<not> isnan (occurrence_rate c)) ctxs
              in if length prups > 1 then [Val (sum_list (map rate_of prups))]
                 else map occurrence_rate prups)"
    and "length (filter (\<lambda>c. isnan (occurrence_rate c)) out)
           = min 1 (length (filter (\<lambda>c. isnan (occurrence_rate c)) ctxs))"
proof -
  let ?P = "filter (\<lambda>c. \<not> isnan (occurrence_rate c)) ctxs"
  let ?N = "filter (\<lambda>c. isnan (occurrence_rate c)) ctxs"
  have len: "length ?P + length ?N = length ctxs"
    using sum_length_filter_compl [of "\<lambda>c. \<not> isnan (occurrence_rate c)" ctxs] by simp
  have sumP: "foldl fadd (Val 0) (map occurrence_rate ?P) = Val (sum_list (map rate_of ?P))"
    using foldl_fadd_Val [of ?P 0] by simp
  have hdN: "isnan (occurrence_rate (hd ?N))" if "?N \<noteq> []"
  proof -
    from that have "hd ?N \<in> set ?N" by (rule hd_in_set)
    then show ?thesis by simp
  qed
  have both: "map occurrence_rate (filter (\<lambda>c. \<not> isnan (occurrence_rate c)) out)
           = (if length ?P > 1 then [Val (sum_list (map rate_of ?P))] else map occurrence_rate ?P)
       \<and> length (filter (\<lambda>c. isnan (occurrence_rate c)) out) = min 1 (length ?N)"
  proof (cases "length ctxs < 2")
    case True
    with assms have o: "out = ctxs" by (simp add: collapse_def)
    from True len have "length ?P \<le> 1" "length ?N \<le> 1" by auto
    then show ?thesis unfolding o by auto
  next
    case False
    show ?thesis
    proof (cases "length ?N > 1")
      case True
      then have "?N \<noteq> []" by auto
      note h = hdN [OF this]
      from assms False True obtain pmf where
        "out = (if length ?P > 1
                then [(hd ?P)\<lparr>occurrence_rate := foldl fadd (Val 0) (map occurrence_rate ?P)\<rparr>]
                else ?P) @ [(hd ?N)\<lparr>probs_occur := pmf\<rparr>]"
        by (auto simp: collapse_def Let_def split: sum.splits)
      then show ?thesis using True h by (auto simp: sumP)
    next
      case N: False
      from assms False N have
        "out = (if length ?P > 1
                then [(hd ?P)\<lparr>occurrence_rate := foldl fadd (Val 0) (map occurrence_rate ?P)\<rparr>]
                else ?P) @ ?N"
        by (auto simp: collapse_def Let_def split: sum.splits)
      then show ?thesis using N by (auto simp: sumP)
    qed
  qed
  then show "map occurrence_rate (filter (\<lambda>c. \<not> isnan (occurrence_rate c)) out)
           = (let prups = filter (\<lambda>c. \<not> isnan (occurrence_rate c)) ctxs
              in if length prups > 1 then [Val (sum_list (map rate_of prups))]
                 else map occurrence_rate prups)"
    by (simp add: Let_def)
  from both show "length (filter (\<lambda>c. isnan (occurrence_rate c)) out)
           = min 1 (length (filter (\<lambda>c. isnan (occurrence_rate c)) ctxs))"
    by simp
qed


text \<open>
  Claim C1. Let the temporal occurrence model be multiplicative in the rate (as the
  Poisson model is), let every non-parametric context carry a probability mass function,
  and let the conditional probabilities of exceedance lie in the unit interval. Then
  \<open>_collapse\<close> returns a list that is no longer than its input and has the same
  composed no-exceedance probability under the independent-ruptures rule; its parametric
  member carries the sum of the parametric rates, and non-parametric contexts are merged
  among themselves only. The same holds for \<open>collapse_the_ctxs\<close>, where the conditional
  probability of a context is a function of its grouping key, and \<open>collapse_the_ctxs\<close>
  returns whenever every context has the attributes the key reads.
\<close>

theorem collapse_invariance:
  assumes mult: "\<forall>r1 r2 poe. tom (r1 + r2) poe = tom r1 poe * tom r2 poe"
    and valid: "\<forall>c\<in>set ctxs. isnan (occurrence_rate c) \<longrightarrow> is_pmf (probs_occur c)"
    and p: "0 \<le> p" "p \<le> 1"
    and g: "\<forall>k. 0 \<le> g k \<and> g k \<le> 1"
  shows "(\<exists>out. collapse ctxs = Inr out \<and> length out \<le> length ctxs \<and>
            compose_pne tom (\<lambda>ctx. p) out = compose_pne tom (\<lambda>ctx. p) ctxs \<and>
            map occurrence_rate (filter (\<lambda>c. \<not> isnan (occurrence_rate c)) out)
              = (let prups = filter (\<lambda>c. \<not> isnan (occurrence_rate c)) ctxs
                 in if length prups > 1 then [Val (sum_list (map rate_of prups))]
                    else map occurrence_rate prups) \<and>
            length (filter (\<lambda>c. isnan (occurrence_rate c)) out)
              = min 1 (length (filter (\<lambda>c. isnan (occurrence_rate c)) ctxs))) \<and>
         (\<forall>out. collapse_the_ctxs cm ctxs = Inr out \<longrightarrow>
            length out \<le> length ctxs \<and>
            compose_pne tom (\<lambda>ctx. g (params cm ctx)) out
              = compose_pne tom (\<lambda>ctx. g (params cm ctx)) ctxs) \<and>
         ((\<forall>c\<in>set ctxs. \<exists>k. params cm c = Inr k) \<longrightarrow>
            (\<exists>out. collapse_the_ctxs cm ctxs = Inr out))"
proof (intro conjI allI impI)
  have "\<exists>out. collapse ctxs = Inr out \<and> length out \<le> length ctxs \<and>
           compose_pne tom (\<lambda>ctx. p) out = compose_pne tom (\<lambda>ctx. p) ctxs"
    by (rule collapse_ok [where poe = "\<lambda>ctx. p" and p = p, OF mult valid p]) simp_all
  then obtain out where out: "collapse ctxs = Inr out" "length out \<le> length ctxs"
    "compose_pne tom (\<lambda>ctx. p) out = compose_pne tom (\<lambda>ctx. p) ctxs"
    by blast
  with collapse_kinds [OF out(1)]
  show "\<exists>out. collapse ctxs = Inr out \<and> length out \<le> length ctxs \<and>
            compose_pne tom (\<lambda>ctx. p) out = compose_pne tom (\<lambda>ctx. p) ctxs \<and>
            map occurrence_rate (filter (\<lambda>c. \<not> isnan (occurrence_rate c)) out)
              = (let prups = filter (\<lambda>c. \<not> isnan (occurrence_rate c)) ctxs
                 in if length prups > 1 then [Val (sum_list (map rate_of prups))]
                    else map occurrence_rate prups) \<and>
            length (filter (\<lambda>c. isnan (occurrence_rate c)) out)
              = min 1 (length (filter (\<lambda>c. isnan (occurrence_rate c)) ctxs))"
    by blast
next
  fix out
  assume c: "collapse_the_ctxs cm ctxs = Inr out"
  have "length out \<le> length ctxs \<and>
        compose_pne tom (\<lambda>ctx. g (params cm ctx)) out
          = compose_pne tom (\<lambda>ctx. g (params cm ctx)) ctxs"
  proof (cases "length ctxs = 1")
    case True
    with c show ?thesis by (simp add: collapse_the_ctxs_def)
  next
    case False
    with c obtain kxs where "keyed (params cm) ctxs = Inr kxs"
      by (auto simp: collapse_the_ctxs_def groupby_def split: sum.splits)
    from keyed_Inr [OF this] have keys: "\<forall>c\<in>set ctxs. \<exists>k. params cm c = Inr k"
      by force
    from collapse_the_ctxs_ok [OF mult valid g keys, of ] c show ?thesis by auto
  qed
  then show "length out \<le> length ctxs"
    and "compose_pne tom (\<lambda>ctx. g (params cm ctx)) out
          = compose_pne tom (\<lambda>ctx. g (params cm ctx)) ctxs"
    by simp_all
next
  assume "\<forall>c\<in>set ctxs. \<exists>k. params cm c = Inr k"
  from collapse_the_ctxs_ok [OF mult valid g this]
  show "\<exists>out. collapse_the_ctxs cm ctxs = Inr out" by blast
qed

theorem collapse_invariance_witness:
  "(\<forall>r1 r2 poe. example_tom (r1 + r2) poe = example_tom r1 poe * example_tom r2 poe) \<and>
   is_pmf [999 / 1000, 1 / 1000] \<and> is_pmf [998 / 1000, 2 / 1000] \<and>
   list_all (\<lambda>c. \<exists>k. params example_cm c = Inr k) example_ctxs \<and>
   (\<exists>out. collapse example_ctxs = Inr out \<and> length out = 2 \<and>
       map occurrence_rate out = [Val (3 / 1000), NaN] \<and>
       compose_pne example_tom (\<lambda>ctx. 1 / 2) out
         = compose_pne example_tom (\<lambda>ctx. 1 / 2) example_ctxs) \<and>
   (\<exists>out. collapse_the_ctxs example_cm example_ctxs = Inr out \<and> length out \<le> 4 \<and>
       compose_pne example_tom (\<lambda>ctx. 1 / 2) out
         = compose_pne example_tom (\<lambda>ctx. 1 / 2) example_ctxs)"
proof -
  have h1: "\<forall>r1 r2 poe. example_tom (r1 + r2) poe = example_tom r1 poe * example_tom r2 poe"
    by (simp add: example_tom_def exp_add [symmetric] algebra_simps)
  have h2: "\<forall>c\<in>set example_ctxs. isnan (occurrence_rate c) \<longrightarrow> is_pmf (probs_occur c)"
    by (simp add: example_ctxs_def example_ctx_def is_pmf_def)
  have h3: "\<forall>c\<in>set example_ctxs. \<exists>k. params example_cm c = Inr k"
    by (simp add: example_ctxs_def example_ctx_def example_cm_def params_def)
  have h4: "(0::real) \<le> 1 / 2" "(1::real) / 2 \<le> 1" "\<forall>k::error + real list. (0::real) \<le> 1 / 2 \<and> (1::real) / 2 \<le> 1"
    by simp_all
  note inst = collapse_invariance [OF h1 h2 h4, of example_cm]
  from inst obtain out where out: "collapse example_ctxs = Inr out"
    "compose_pne example_tom (\<lambda>ctx. 1 / 2) out
         = compose_pne example_tom (\<lambda>ctx. 1 / 2) example_ctxs"
    by blast
  have "\<exists>pmf. collapse example_ctxs = Inr [example_ctx (Val (3 / 1000)) [], example_ctx NaN pmf]"
    by (simp add: collapse_def example_ctxs_def example_ctx_def Let_def combine_pmf_def zeros_def)
  with out have a: "\<exists>out. collapse example_ctxs = Inr out \<and> length out = 2 \<and>
       map occurrence_rate out = [Val (3 / 1000), NaN] \<and>
       compose_pne example_tom (\<lambda>ctx. 1 / 2) out
         = compose_pne example_tom (\<lambda>ctx. 1 / 2) example_ctxs"
    by (auto simp: example_ctx_def)
  from inst h3 have b: "\<exists>out. collapse_the_ctxs example_cm example_ctxs = Inr out \<and> length out \<le> 4 \<and>
       compose_pne example_tom (\<lambda>ctx. 1 / 2) out
         = compose_pne example_tom (\<lambda>ctx. 1 / 2) example_ctxs"
    by (auto simp: example_ctxs_def)
  have h2': "is_pmf [999 / 1000, 1 / 1000]" "is_pmf [998 / 1000, 2 / 1000]"
    by (simp_all add: is_pmf_def)
  have h3': "list_all (\<lambda>c. \<exists>k. params example_cm c = Inr k) example_ctxs"
    using h3 by (simp add: list_all_iff)
  from h1 h2' h3' a b show ?thesis by (intro conjI)
qed

section \<open>Clipping of the non-parametric probability\<close>

lemma clip_bounds: "0 \<le> clip x 0 1" "clip x 0 1 \<le> 1"
  by (simp_all add: clip_def)

text \<open>
  Claim C10. For a non-parametric context (the occurrence rate is NaN) and every array
  of conditional probabilities of exceedance, the result is, entry by entry, the sum over
  the occurrence counts clipped to the unit interval; so every entry is a probability,
  whatever \<open>probs_occur\<close> and \<open>poes\<close> contain.
\<close>

theorem nonparametric_pne_clipped:
  assumes "isnan (occurrence_rate ctx)"
  shows "get_probability_no_exceedance tom ctx poes
           = map (\<lambda>poe. clip (\<Sum>i<length (probs_occur ctx). probs_occur ctx ! i * (1 - poe) ^ i) 0 1) poes
         \<and> (\<forall>x\<in>set (get_probability_no_exceedance tom ctx poes). 0 \<le> x \<and> x \<le> 1)"
proof -
  from assms have n: "occurrence_rate ctx = NaN" by (cases "occurrence_rate ctx") simp_all
  then have "get_probability_no_exceedance tom ctx poes
           = map (\<lambda>poe. clip (\<Sum>i<length (probs_occur ctx). probs_occur ctx ! i * (1 - poe) ^ i) 0 1) poes"
    by (simp add: get_probability_no_exceedance_def pne1_def prob_no_exceed_sum)
  then show ?thesis by (auto simp: clip_bounds)
qed

theorem nonparametric_pne_clipped_witness:
  "isnan (occurrence_rate (example_ctx NaN [2, 3])) \<and>
   get_probability_no_exceedance example_tom (example_ctx NaN [2, 3]) [-1, 1 / 2, 2] = [1, 1, 0]"
proof -
  have h: "isnan (occurrence_rate (example_ctx NaN [2, 3]))"
    by (simp add: example_ctx_def)
  from nonparametric_pne_clipped [OF h, of example_tom "[-1, 1 / 2, 2]"] h
  show ?thesis
    by (simp add: example_ctx_def clip_def lessThan_Suc numeral_2_eq_2)
qed

section \<open>Roundup is idempotent\<close>

lemma roundup_array_map: "roundup_array m a = map (\<lambda>x. if x < m then m else x) a"
proof (cases "list_ex id (map (\<lambda>x. x < m) a)")
  case True
  then show ?thesis
    by (simp add: roundup_array_def Let_def zip_map2 zip_same_conv_map)
next
  case False
  then have "\<forall>x\<in>set a. \<not> x < m" by (auto simp: list_ex_iff)
  then have "map (\<lambda>x. if x < m then m else x) a = a" by (induction a) auto
  with False show ?thesis by (simp add: roundup_array_def Let_def)
qed

lemma roundup_array_idem: "roundup_array m (roundup_array m a) = roundup_array m a"
  by (simp add: roundup_array_map)

lemma roundup_array_rounded: "values_rounded m a (roundup_array m a)"
  by (auto simp: values_rounded_def roundup_array_map)

lemma values_rounded_refl: "values_rounded m a a"
  by (simp add: values_rounded_def)

lemma dctx_roundup_idem: "dctx_roundup m (dctx_roundup m dctx) = dctx_roundup m dctx"
  by (auto simp: dctx_roundup_def roundup_array_idem)

lemma rctx_roundup_idem: "rctx_roundup m (rctx_roundup m rctx) = rctx_roundup m rctx"
proof -
  let ?f = "\<lambda>(dist, array). if dist \<in> set KNOWN_DISTANCES
                               then (dist, roundup_array m array) else (dist, array)"
  have "\<And>p. ?f (?f p) = ?f p"
    by (auto simp: roundup_array_idem split: prod.splits)
  then have "map (?f \<circ> ?f) (dists rctx) = map ?f (dists rctx)"
    by (intro map_cong refl) simp
  then show ?thesis
    by (simp add: rctx_roundup_def)
qed

lemma dctx_rounded: "attrs_rounded m dctx (dctx_roundup m dctx)"
  by (auto simp: attrs_rounded_def dctx_roundup_def list.rel_map values_rounded_refl
        roundup_array_rounded intro!: list.rel_refl_strong)

lemma rctx_rounded: "attrs_rounded m (dists rctx) (dists (rctx_roundup m rctx))"
  by (auto simp: attrs_rounded_def rctx_roundup_def list.rel_map values_rounded_refl
        roundup_array_rounded intro!: list.rel_refl_strong split: if_splits)

text \<open>
  Claim C8. For both context classes and every minimum distance, rounding up twice is
  the same as rounding up once; every array keeps its name and length, every value at
  or above the minimum is unchanged, and a value that changes was below the minimum and
  becomes exactly the minimum. A \<open>RuptureContext\<close> differs from its roundup in its
  distance arrays only.
\<close>

theorem roundup_idempotent:
  "dctx_roundup m (dctx_roundup m dctx) = dctx_roundup m dctx \<and>
   rctx_roundup m (rctx_roundup m rctx) = rctx_roundup m rctx \<and>
   attrs_rounded m dctx (dctx_roundup m dctx) \<and>
   attrs_rounded m (dists rctx) (dists (rctx_roundup m rctx)) \<and>
   rctx_roundup m rctx = rctx\<lparr>dists := dists (rctx_roundup m rctx)\<rparr>"
  by (simp add: dctx_roundup_idem rctx_roundup_idem dctx_rounded rctx_rounded)
     (simp add: rctx_roundup_def)

theorem roundup_idempotent_witness:
  "dctx_roundup 1 example_dctx = [(''rrup'', [1, 3, 10]), (''rjb'', [1, 2, 9])] \<and>
   dctx_roundup 1 (dctx_roundup 1 example_dctx) = dctx_roundup 1 example_dctx \<and>
   dists (rctx_roundup 1 example_rctx) = [(''rrup'', [1, 3, 10]), (''gc2t'', [-4, 0, 1])] \<and>
   rctx_roundup 1 (rctx_roundup 1 example_rctx) = rctx_roundup 1 example_rctx \<and>
   attrs_rounded 1 example_dctx (dctx_roundup 1 example_dctx)"
  using roundup_idempotent [of 1 example_dctx example_rctx]
  by (simp add: dctx_roundup_def rctx_roundup_def roundup_array_def example_dctx_def
        example_rctx_def KNOWN_DISTANCES_def)

section \<open>The probability map\<close>



































end
